theory Spec2Isabelle
  imports Main
begin

section \<open>Text primitives of the Python source\<close>

text \<open>
  A Python \<^verbatim>\<open>str\<close> is modelled as a \<^typ>\<open>string\<close>; a character is a code point
  below 256. The functions below are the string methods that \<^verbatim>\<open>xvg.py\<close> calls, with
  the meaning they have in Python 3.
\<close>

definition dquote :: char where
  "dquote = CHR 0x22"

definition squote :: char where
  "squote = CHR 0x27"

text \<open>
  The white space of \<^verbatim>\<open>str.strip()\<close>, \<^verbatim>\<open>str.split()\<close> and of the class \<^verbatim>\<open>\s\<close> in a
  \<^verbatim>\<open>str\<close> pattern: tab to carriage return, the four separators 0x1c to 0x1f, the
  space, and (beyond ASCII) 0x85 and 0xa0.
\<close>

definition isspace :: "char \<Rightarrow> bool" where
  "isspace c = (of_char c \<in> {9, 10, 11, 12, 13, 28, 29, 30, 31, 32, 133, 160 :: nat})"

definition isdigit :: "char \<Rightarrow> bool" where
  "isdigit c = (of_char c \<in> {48, 49, 50, 51, 52, 53, 54, 55, 56, 57 :: nat})"

definition digit_value :: "char \<Rightarrow> nat" where
  "digit_value c = of_char c - 48"

text \<open>\<^verbatim>\<open>s.startswith(p)\<close>\<close>

definition startswith :: "string \<Rightarrow> string \<Rightarrow> bool" where
  "startswith s p = (take (length p) s = p)"

text \<open>\<^verbatim>\<open>s.strip()\<close>: white space removed at both ends.\<close>

definition strip :: "string \<Rightarrow> string" where
  "strip s = rev (dropWhile isspace (rev (dropWhile isspace s)))"

text \<open>
  \<^verbatim>\<open>s.split()\<close>: the maximal runs of characters that are not white space, in order.
  The first argument is the run being read.
\<close>

fun split_run :: "string \<Rightarrow> string \<Rightarrow> string list" where
  "split_run w [] = (if w = [] then [] else [w])"
| "split_run w (c # cs) =
     (if isspace c then (if w = [] then split_run [] cs else w # split_run [] cs)
      else split_run (w @ [c]) cs)"

definition split :: "string \<Rightarrow> string list" where
  "split s = split_run [] s"

section \<open>Errors\<close>

text \<open>
  The exceptions the code can raise: \<^verbatim>\<open>IndexError\<close> from \<^verbatim>\<open>list.pop\<close>, from
  \<^verbatim>\<open>tokens[0]\<close> and from numpy indexing; \<^verbatim>\<open>ValueError\<close> from \<^verbatim>\<open>int()\<close> and from
  \<^verbatim>\<open>numpy.array(..., dtype='float')\<close>.
\<close>

datatype error = IndexError | ValueError

section \<open>\<^verbatim>\<open>int()\<close> of a string\<close>

text \<open>
  \<^verbatim>\<open>int(s)\<close> in base ten: white space around the literal is dropped, one sign may
  lead, and the digits may be grouped by single underscores (Python 3.6 and later).
  Anything else raises \<^verbatim>\<open>ValueError\<close>. \<open>int_digits acc s\<close> reads what follows a digit.
\<close>

fun int_digits :: "nat \<Rightarrow> string \<Rightarrow> nat option" where
  "int_digits acc [] = Some acc"
| "int_digits acc (c # cs) =
     (if isdigit c then int_digits (10 * acc + digit_value c) cs
      else if c = CHR ''_'' then
        (case cs of
           [] \<Rightarrow> None
         | d # ds \<Rightarrow> if isdigit d then int_digits (10 * acc + digit_value d) ds else None)
      else None)"

definition int_unsigned :: "string \<Rightarrow> nat option" where
  "int_unsigned s =
     (case s of
        [] \<Rightarrow> None
      | c # cs \<Rightarrow> if isdigit c then int_digits (digit_value c) cs else None)"

definition py_int :: "string \<Rightarrow> error + int" where
  "py_int s =
     (case strip s of
        [] \<Rightarrow> Inl ValueError
      | c # cs \<Rightarrow>
          if c = CHR ''-'' then
            (case int_unsigned cs of None \<Rightarrow> Inl ValueError | Some n \<Rightarrow> Inr (- int n))
          else if c = CHR ''+'' then
            (case int_unsigned cs of None \<Rightarrow> Inl ValueError | Some n \<Rightarrow> Inr (int n))
          else
            (case int_unsigned (c # cs) of None \<Rightarrow> Inl ValueError | Some n \<Rightarrow> Inr (int n)))"

section \<open>The tokenizer \<^verbatim>\<open>RE_SPLIT\<close>\<close>

text \<open>
  \<^verbatim>\<open>RE_SPLIT = re.compile(r'''((?:[^\s"']|"[^"]*"|'[^']*')+)''')\<close>

  \<open>re_quoted q s\<close> matches \<^verbatim>\<open>[^q]*q\<close> at the start of \<open>s\<close> (the text after an opening
  quote): the characters before the first \<open>q\<close>, and what follows that \<open>q\<close>. There is no
  match when \<open>s\<close> has no \<open>q\<close>.
\<close>

fun re_quoted :: "char \<Rightarrow> string \<Rightarrow> (string \<times> string) option" where
  "re_quoted q [] = None"
| "re_quoted q (c # cs) =
     (if c = q then Some ([], cs)
      else (case re_quoted q cs of
              None \<Rightarrow> None
            | Some (body, rest) \<Rightarrow> Some (c # body, rest)))"

text \<open>
  One pass through the group \<^verbatim>\<open>(?:[^\s"']|"[^"]*"|'[^']*')\<close>, its alternatives in the
  order of the pattern: the text matched and the text left. The first character decides
  which alternative can match, so the pass never has to go back to another one.
\<close>

fun re_alternative :: "string \<Rightarrow> (string \<times> string) option" where
  "re_alternative [] = None"
| "re_alternative (c # cs) =
     (if \<not> isspace c \<and> c \<noteq> dquote \<and> c \<noteq> squote then Some ([c], cs)
      else if c = dquote then
        (case re_quoted dquote cs of
           None \<Rightarrow> None
         | Some (body, rest) \<Rightarrow> Some (dquote # body @ [dquote], rest))
      else if c = squote then
        (case re_quoted squote cs of
           None \<Rightarrow> None
         | Some (body, rest) \<Rightarrow> Some (squote # body @ [squote], rest))
      else None)"

lemma re_quoted_split:
  "re_quoted q s = Some (body, rest) \<Longrightarrow> s = body @ q # rest \<and> q \<notin> set body"
  by (induction s arbitrary: body) (auto split: if_splits option.splits)

lemma re_alternative_split:
  "re_alternative s = Some (m, rest) \<Longrightarrow> s = m @ rest \<and> m \<noteq> []"
  by (cases s) (auto split: if_splits option.splits dest: re_quoted_split)

text \<open>
  The greedy repetition \<^verbatim>\<open>(...)+\<close> at the start of \<open>s\<close>: the longest run of passes
  through the group and the text left. An empty run means that the pattern does not
  match at this position.
\<close>

function re_repeat :: "string \<Rightarrow> string \<times> string" where
  "re_repeat s =
     (case re_alternative s of
        None \<Rightarrow> ([], s)
      | Some (m, rest) \<Rightarrow> (case re_repeat rest of (ms, rest') \<Rightarrow> (m @ ms, rest')))"
  by pat_completeness auto
termination
  by (relation "measure length") (auto dest: re_alternative_split)

declare re_repeat.simps [simp del]

lemma re_repeat_split:
  "re_repeat s = (m, rest) \<Longrightarrow> s = m @ rest"
proof (induction s arbitrary: m rest rule: re_repeat.induct)
  case (1 s)
  show ?case
  proof (cases "re_alternative s")
    case None
    with "1.prems" show ?thesis by (simp add: re_repeat.simps [of s])
  next
    case (Some p)
    obtain a r where p: "p = (a, r)" by (cases p)
    obtain ms r' where rr: "re_repeat r = (ms, r')" by (cases "re_repeat r")
    from Some p have s: "s = a @ r" by (auto dest: re_alternative_split)
    from "1.IH" [OF Some p [symmetric] rr] have r: "r = ms @ r'" .
    from Some p rr "1.prems" have "m = a @ ms" and "rest = r'"
      by (simp_all add: re_repeat.simps [of s])
    with s r show ?thesis by simp
  qed
qed

text \<open>
  \<^verbatim>\<open>RE_SPLIT.findall(s)\<close>: the matches from left to right, none overlapping. Where the
  pattern does not match, the search moves on by one character.
\<close>

function RE_SPLIT_findall :: "string \<Rightarrow> string list" where
  "RE_SPLIT_findall s =
     (if s = [] then []
      else (case re_repeat s of
              (m, rest) \<Rightarrow> if m = [] then RE_SPLIT_findall (tl s) else m # RE_SPLIT_findall rest))"
  by pat_completeness auto
termination
  by (relation "measure length") (auto dest!: re_repeat_split [OF sym])

declare RE_SPLIT_findall.simps [simp del]

section \<open>The data model\<close>

text \<open>
  A numpy array of floats, in the two shapes an \<^verbatim>\<open>XvgSingle\<close> holds: one-dimensional
  (\<^verbatim>\<open>numpy.empty((0,))\<close> at construction, a column read out of a matrix), or a matrix
  given by its rows. A matrix has at least one row and its rows have one length: \<open>parse\<close>
  builds no other. The float type \<open>'f\<close> is left open: the code does no arithmetic.
\<close>

datatype 'f ndarray = Array1 "'f list" | Array2 "'f list list"

text \<open>
  The instance attributes of \<^verbatim>\<open>XvgSingle\<close>. \<^verbatim>\<open>self._columns\<close> is a \<^verbatim>\<open>dict\<close> from
  names to integers: an association list in insertion order, its keys distinct.
\<close>

record 'f xvg =
  self_columns :: "(string \<times> int) list"
  self_array :: "'f ndarray"
  xlabel :: string
  ylabel :: string
  title :: string

text \<open>\<^verbatim>\<open>__init__\<close>\<close>

definition init :: "'f xvg" where
  "init = \<lparr>self_columns = [], self_array = Array1 [], xlabel = [], ylabel = [], title = []\<rparr>"

text \<open>\<^verbatim>\<open>d[k] = v\<close>: a key already present keeps its place, a new one goes last.\<close>

fun dict_set :: "('k \<times> 'v) list \<Rightarrow> 'k \<Rightarrow> 'v \<Rightarrow> ('k \<times> 'v) list" where
  "dict_set [] k v = [(k, v)]"
| "dict_set (item # d) k v = (if fst item = k then (k, v) # d else item # dict_set d k v)"

definition translate_commands :: "(string \<times> string) list" where
  "translate_commands = [(''title'', ''title''), (''xaxis'', ''xlabel''), (''yaxis'', ''ylabel'')]"

text \<open>\<^verbatim>\<open>setattr(self, attr, value)\<close> for the attribute names of \<open>translate_commands\<close>.\<close>

definition setattr :: "'f xvg \<Rightarrow> string \<Rightarrow> string \<Rightarrow> 'f xvg" where
  "setattr self attr v =
     (if attr = ''title'' then self\<lparr>title := v\<rparr>
      else if attr = ''xlabel'' then self\<lparr>xlabel := v\<rparr>
      else if attr = ''ylabel'' then self\<lparr>ylabel := v\<rparr>
      else self)"

section \<open>\<^verbatim>\<open>_parse_header_line\<close>\<close>

text \<open>
  \<^verbatim>\<open>token[1:-1] if token[0] == token[-1] and token[0] in '"\'' else token\<close>.
  The tokens of \<open>RE_SPLIT_findall\<close> are never empty (\<open>findall_nonempty\<close> below), so
  \<^verbatim>\<open>token[0]\<close> never raises here.
\<close>

definition unquote :: "string \<Rightarrow> string" where
  "unquote token =
     (if hd token = last token \<and> hd token \<in> {dquote, squote} then butlast (tl token)
      else token)"

text \<open>The list \<^verbatim>\<open>tokens\<close> before the command is popped.\<close>

definition header_tokens :: "string \<Rightarrow> string list" where
  "header_tokens line = map unquote (RE_SPLIT_findall (strip (drop 1 line)))"

text \<open>
  Every branch of \<^verbatim>\<open>_parse_header_line\<close> changes \<^verbatim>\<open>self\<close> in its last statement only,
  so a call that raises leaves the object as it was: the result is the error or the new
  object. In \<^verbatim>\<open>self._columns[tokens.pop()] = int(command[1:]) + 1\<close> Python evaluates the
  right-hand side first, then \<^verbatim>\<open>tokens.pop()\<close>.
\<close>

definition parse_header_line :: "'f xvg \<Rightarrow> string \<Rightarrow> error + 'f xvg" where
  "parse_header_line self line =
     (case header_tokens line of
        [] \<Rightarrow> Inl IndexError
      | command # tokens \<Rightarrow>
          if command = ''title'' then
            (case tokens of
               [] \<Rightarrow> Inl IndexError
             | t # _ \<Rightarrow> Inr (self\<lparr>title := t\<rparr>))
          else if command \<in> fst ` set translate_commands then
            (case tokens of
               [] \<Rightarrow> Inl IndexError
             | t # _ \<Rightarrow> Inr (setattr self (the (map_of translate_commands command)) t))
          else if startswith command ''s'' then
            (case tokens of
               [] \<Rightarrow> Inl IndexError
             | t # tokens' \<Rightarrow>
                 if t = ''legend'' then
                   (case py_int (drop 1 command) of
                      Inl e \<Rightarrow> Inl e
                    | Inr n \<Rightarrow>
                        (case tokens' of
                           [] \<Rightarrow> Inl IndexError
                         | _ # _ \<Rightarrow>
                             Inr (self\<lparr>self_columns :=
                                    dict_set (self_columns self) (last tokens') (n + 1)\<rparr>)))
                 else Inr self)
          else Inr self)"

section \<open>\<^verbatim>\<open>parse\<close>\<close>

text \<open>
  \<^verbatim>\<open>numpy.array(values, dtype='float')\<close> for a list of lists of strings. \<open>to_float\<close> is
  numpy's conversion of one string, \<open>None\<close> where it raises. No rows give the
  one-dimensional array of length 0; rows of one length, every token converted, give
  the matrix (also \<open>k\<close> rows of no token: the shape \<open>(k, 0)\<close>); rows of different lengths
  or a token that does not convert raise \<^verbatim>\<open>ValueError\<close>.
\<close>

definition numpy_array :: "(string \<Rightarrow> 'f option) \<Rightarrow> string list list \<Rightarrow> error + 'f ndarray" where
  "numpy_array to_float values =
     (case values of
        [] \<Rightarrow> Inr (Array1 [])
      | row # rows \<Rightarrow>
          if list_all (\<lambda>r. length r = length row) rows then
            (case those (map (\<lambda>r. those (map to_float r)) values) of
               None \<Rightarrow> Inl ValueError
             | Some m \<Rightarrow> Inr (Array2 m))
          else Inl ValueError)"

text \<open>
  The \<^verbatim>\<open>for\<close> loop of \<^verbatim>\<open>parse\<close> over the iterator \<^verbatim>\<open>content\<close>, with the list \<^verbatim>\<open>values\<close>
  built so far. It ends with the object, the rows and the lines the iterator has not
  given out, or with the exception of a header line and the object at that moment.
\<close>

fun parse_loop ::
  "'f xvg \<Rightarrow> string list \<Rightarrow> string list list \<Rightarrow>
     (error \<times> 'f xvg) + ('f xvg \<times> string list list \<times> string list)" where
  "parse_loop self [] values = Inr (self, values, [])"
| "parse_loop self (line # content) values =
     (if startswith line ''//'' then Inr (self, values, content)
      else if startswith line ''@'' then
        (case parse_header_line self line of
           Inl e \<Rightarrow> Inl (e, self)
         | Inr self' \<Rightarrow> parse_loop self' content values)
      else if startswith line ''#'' then parse_loop self content values
      else parse_loop self content (values @ [split line]))"

text \<open>
  \<^verbatim>\<open>parse\<close>: the object and the unread lines, or the exception and the object as the
  exception leaves it.
\<close>

definition parse ::
  "(string \<Rightarrow> 'f option) \<Rightarrow> 'f xvg \<Rightarrow> string list \<Rightarrow> (error \<times> 'f xvg) + ('f xvg \<times> string list)" where
  "parse to_float self content =
     (case parse_loop self content [] of
        Inl raised \<Rightarrow> Inl raised
      | Inr (self', values, unread) \<Rightarrow>
          (case numpy_array to_float values of
             Inl e \<Rightarrow> Inl (e, self')
           | Inr a \<Rightarrow> Inr (self'\<lparr>self_array := a\<rparr>, unread)))"

text \<open>\<^verbatim>\<open>from_iter\<close>\<close>

definition from_iter ::
  "(string \<Rightarrow> 'f option) \<Rightarrow> string list \<Rightarrow> (error \<times> 'f xvg) + ('f xvg \<times> string list)" where
  "from_iter to_float content = parse to_float init content"

section \<open>The property \<^verbatim>\<open>columns\<close>\<close>

text \<open>
  The \<^verbatim>\<open>while items:\<close> loop with its three variables. Nothing bounds the number of
  its rounds, so the result is an option: \<open>None\<close> is a loop that never ends.
\<close>

partial_function (option) columns_loop ::
  "(string \<times> int) list \<Rightarrow> int \<Rightarrow> string list \<Rightarrow> string list option" where
  "columns_loop items i columns =
     (case items of
        [] \<Rightarrow> Some columns
      | item # rest \<Rightarrow>
          if snd item = i then columns_loop rest (i + 1) (columns @ [fst item])
          else columns_loop items (i + 1) (columns @ [[]]))"

declare columns_loop.simps [code]

text \<open>
  \<^verbatim>\<open>sorted(self._columns.items(), key=operator.itemgetter(1))\<close> is a stable sort on the
  index, as \<open>sort_key snd\<close> is.
\<close>

definition columns :: "'f xvg \<Rightarrow> string list option" where
  "columns self = columns_loop (sort_key snd (self_columns self)) 0 []"

section \<open>\<^verbatim>\<open>__getitem__\<close>\<close>

text \<open>
  The keys a caller can pass: a string, an integer, a slice, a tuple, a list. A string,
  an integer and a slice have a hash (a slice since Python 3.12; before that it took the
  other branch of \<^verbatim>\<open>__getitem__\<close>, to the same result, as no slice is a key of
  \<^verbatim>\<open>_columns\<close>); a tuple has one when its members do; a list has none.
\<close>

datatype key =
  KStr string
| KInt int
| KSlice "int option" "int option" "int option"
| KTuple "key list"
| KList "key list"

fun hashable :: "key \<Rightarrow> bool" where
  "hashable (KStr s) = True"
| "hashable (KInt i) = True"
| "hashable (KSlice a b c) = True"
| "hashable (KTuple ks) = list_all hashable ks"
| "hashable (KList ks) = False"

text \<open>
  \<^verbatim>\<open>key in self._columns\<close> and \<^verbatim>\<open>self._columns[key]\<close>: the keys of the dictionary are
  strings, and only a string is equal to one.
\<close>

fun dict_get :: "(string \<times> int) list \<Rightarrow> key \<Rightarrow> int option" where
  "dict_get d (KStr s) = map_of d s"
| "dict_get d k = None"

text \<open>What indexing an array gives: one number or an array.\<close>

datatype 'f npvalue = Scalar 'f | NdArray "'f ndarray"

text \<open>
  \<^verbatim>\<open>a[:, j]\<close> on an array of numpy: a one-dimensional array has too few axes
  (\<^verbatim>\<open>IndexError\<close>); on a matrix of \<open>n\<close> columns, \<open>j\<close> from \<open>-n\<close> to \<open>n - 1\<close> selects a
  column, a negative \<open>j\<close> counting from the last one, and any other \<open>j\<close> is out of bounds.
\<close>

definition ncols :: "'f list list \<Rightarrow> int" where
  "ncols rows = (case rows of [] \<Rightarrow> 0 | r # _ \<Rightarrow> int (length r))"

fun take_column :: "'f ndarray \<Rightarrow> int \<Rightarrow> error + 'f npvalue" where
  "take_column (Array1 xs) j = Inl IndexError"
| "take_column (Array2 rows) j =
     (if - ncols rows \<le> j \<and> j < ncols rows
      then Inr (NdArray (Array1 (map (\<lambda>r. r ! nat (if j < 0 then j + ncols rows else j)) rows)))
      else Inl IndexError)"

text \<open>
  \<^verbatim>\<open>a[key]\<close>, the indexing of numpy itself. The one key that the code builds,
  \<^verbatim>\<open>(slice(None), j)\<close>, is written out; for every other key the result is that of
  \<open>native\<close>, numpy's indexing taken as it is.
\<close>

fun column_of_key :: "key \<Rightarrow> int option" where
  "column_of_key (KTuple [KSlice None None None, KInt j]) = Some j"
| "column_of_key k = None"

definition ndarray_getitem ::
  "('f ndarray \<Rightarrow> key \<Rightarrow> error + 'f npvalue) \<Rightarrow> 'f ndarray \<Rightarrow> key \<Rightarrow> error + 'f npvalue" where
  "ndarray_getitem native a k =
     (case column_of_key k of
        Some j \<Rightarrow> take_column a j
      | None \<Rightarrow> native a k)"

definition getitem ::
  "('f ndarray \<Rightarrow> key \<Rightarrow> error + 'f npvalue) \<Rightarrow> 'f xvg \<Rightarrow> key \<Rightarrow> error + 'f npvalue" where
  "getitem native self k =
     (let key_is_mutable = hashable k in
      if key_is_mutable \<and> dict_get (self_columns self) k \<noteq> None
      then ndarray_getitem native (self_array self)
             (KTuple [KSlice None None None, KInt (the (dict_get (self_columns self) k))])
      else ndarray_getitem native (self_array self) k)"

section \<open>Auxiliary definitions for the statements\<close>

text \<open>
  The header directives of an input applied in order, each by \<open>parse_header_line\<close>, up to
  the first one that raises.
\<close>

fun apply_directives :: "'f xvg \<Rightarrow> string list \<Rightarrow> error + 'f xvg" where
  "apply_directives self [] = Inr self"
| "apply_directives self (line # rest) =
     (case parse_header_line self line of
        Inl e \<Rightarrow> Inl e
      | Inr self' \<Rightarrow> apply_directives self' rest)"

text \<open>The number that a string of decimal digits writes.\<close>

definition decimal :: "string \<Rightarrow> nat" where
  "decimal ds = foldl (\<lambda>n c. 10 * n + digit_value c) 0 ds"

text \<open>
  A conversion for the closed examples: a string of decimal digits is the number it
  writes, and no other string converts.
\<close>

definition dec_float :: "string \<Rightarrow> int option" where
  "dec_float s = (if s \<noteq> [] \<and> list_all isdigit s then Some (int (decimal s)) else None)"

text \<open>The characters of the class \<^verbatim>\<open>[^\s"']\<close>.\<close>

definition plain :: "char \<Rightarrow> bool" where
  "plain c = (\<not> isspace c \<and> c \<noteq> dquote \<and> c \<noteq> squote)"

text \<open>
  The name registered at column \<open>i\<close>, the empty string where there is none; and the
  names laid out by column, from column 0 to the highest registered one.
\<close>

definition name_at :: "(string \<times> int) list \<Rightarrow> int \<Rightarrow> string" where
  "name_at items i =
     (case filter (\<lambda>item. snd item = i) items of
        [] \<Rightarrow> []
      | item # _ \<Rightarrow> fst item)"

definition aligned :: "(string \<times> int) list \<Rightarrow> string list" where
  "aligned d = (if d = [] then [] else map (name_at d) [0..Max (snd ` set d)])"

section \<open>Facts about the line loop and the assembly of the matrix\<close>

lemma startswith_simps:
  "startswith s [] = True"
  "startswith [] (p # ps) = False"
  "startswith (c # cs) (p # ps) = (c = p \<and> startswith cs ps)"
  by (auto simp: startswith_def)

lemma parse_header_line_array:
  "parse_header_line self line = Inr self' \<Longrightarrow> self_array self' = self_array self"
  by (auto simp: parse_header_line_def setattr_def split: list.splits if_splits sum.splits)

lemma parse_loop_array:
  "parse_loop self content vs = Inr (self', vs', unread) \<Longrightarrow>
     self_array self' = self_array self"
proof (induction content arbitrary: self vs)
  case Nil
  then show ?case by simp
next
  case (Cons line content)
  show ?case
  proof (cases "startswith line ''//''")
    case True
    with Cons.prems show ?thesis by simp
  next
    case no_end: False
    show ?thesis
    proof (cases "startswith line ''@''")
      case True
      with no_end Cons.prems obtain s where
        h: "parse_header_line self line = Inr s" and
        l: "parse_loop s content vs = Inr (self', vs', unread)"
        by (auto split: sum.splits)
      from Cons.IH [OF l] parse_header_line_array [OF h] show ?thesis by simp
    next
      case False
      with no_end Cons.prems Cons.IH show ?thesis by (auto split: if_splits)
    qed
  qed
qed

lemma parse_loop_raised_array:
  "parse_loop self content vs = Inl (e, self') \<Longrightarrow> self_array self' = self_array self"
proof (induction content arbitrary: self vs)
  case Nil
  then show ?case by simp
next
  case (Cons line content)
  show ?case
  proof (cases "startswith line ''//''")
    case True
    with Cons.prems show ?thesis by simp
  next
    case no_end: False
    show ?thesis
    proof (cases "startswith line ''@''")
      case True
      show ?thesis
      proof (cases "parse_header_line self line")
        case (Inl e')
        with True no_end Cons.prems show ?thesis by simp
      next
        case (Inr s)
        with True no_end Cons.prems have "parse_loop s content vs = Inl (e, self')" by simp
        from Cons.IH [OF this] parse_header_line_array [OF Inr] show ?thesis by simp
      qed
    next
      case False
      with no_end Cons.prems Cons.IH show ?thesis by (auto split: if_splits)
    qed
  qed
qed

lemma parse_loop_terminator:
  assumes "\<forall>l\<in>set front. \<not> startswith l ''//''" and "startswith t ''//''"
  shows "parse_loop self (front @ t # unseen) vs =
           (case parse_loop self front vs of
              Inl raised \<Rightarrow> Inl raised
            | Inr (self', vs', unread) \<Rightarrow> Inr (self', vs', unseen))"
  using assms
  by (induction front arbitrary: self vs) (auto split: sum.splits)

lemma those_map_None: "those (map f xs) = None \<longleftrightarrow> (\<exists>x\<in>set xs. f x = None)"
  by (induction xs) (auto split: option.splits)

lemma numpy_array_ragged:
  assumes "r \<in> set vs" and "r' \<in> set vs" and "length r \<noteq> length r'"
  shows "numpy_array to_float vs = Inl ValueError"
proof (cases vs)
  case Nil
  with assms show ?thesis by simp
next
  case (Cons row rows)
  have "\<not> list_all (\<lambda>r. length r = length row) rows"
  proof
    assume "list_all (\<lambda>r. length r = length row) rows"
    with Cons have "\<forall>x\<in>set vs. length x = length row" by (simp add: list_all_iff)
    with assms show False by simp
  qed
  with Cons show ?thesis by (simp add: numpy_array_def)
qed

lemma numpy_array_unparsed:
  assumes "r \<in> set vs" and "t \<in> set r" and "to_float t = None"
  shows "numpy_array to_float vs = Inl ValueError"
proof -
  from assms(2,3) have "those (map to_float r) = None"
    unfolding those_map_None by blast
  with assms(1) have "those (map (\<lambda>r. those (map to_float r)) vs) = None"
    unfolding those_map_None by blast
  then show ?thesis
    by (cases vs) (simp_all add: numpy_array_def)
qed

lemma parse_loop_no_rows:
  assumes "\<forall>l\<in>set content. startswith l ''@'' \<or> startswith l ''#''"
  shows "parse_loop self content vs =
           (case apply_directives self (filter (\<lambda>l. startswith l ''@'') content) of
              Inl e \<Rightarrow> parse_loop self content vs
            | Inr self' \<Rightarrow> Inr (self', vs, []))"
  using assms
proof (induction content arbitrary: self)
  case Nil
  show ?case by simp
next
  case (Cons line content)
  from Cons.prems have rest: "\<forall>l\<in>set content. startswith l ''@'' \<or> startswith l ''#''"
    by simp
  note IH = Cons.IH [OF rest]
  from Cons.prems have kind: "startswith line ''@'' \<or> startswith line ''#''" by simp
  then have no_end: "\<not> startswith line ''//''"
    by (cases line) (auto simp: startswith_simps)
  show ?case
  proof (cases "startswith line ''@''")
    case True
    show ?thesis
    proof (cases "parse_header_line self line")
      case (Inl e)
      with True no_end show ?thesis by simp
    next
      case (Inr s)
      with True no_end IH [of s] show ?thesis by (simp split: sum.splits)
    qed
  next
    case False
    with kind no_end IH [of self] show ?thesis by (simp split: sum.splits)
  qed
qed

section \<open>Facts about \<^verbatim>\<open>int()\<close>, \<^verbatim>\<open>strip()\<close> and the dictionary\<close>

lemmas header_eval =
  header_tokens_def strip_def isspace_def RE_SPLIT_findall.simps re_repeat.simps
  dquote_def squote_def unquote_def

lemmas int_eval =
  py_int_def strip_def isspace_def int_unsigned_def isdigit_def digit_value_def

lemma isdigit_plain:
  "isdigit c \<Longrightarrow> \<not> isspace c \<and> c \<noteq> dquote \<and> c \<noteq> squote \<and> c \<noteq> CHR ''-'' \<and> c \<noteq> CHR ''+'' \<and> c \<noteq> CHR ''_''"
  by (auto simp: isdigit_def isspace_def dquote_def squote_def)

lemma int_digits_decimal:
  "list_all isdigit ds \<Longrightarrow>
   int_digits acc ds = Some (foldl (\<lambda>n c. 10 * n + digit_value c) acc ds)"
  by (induction ds arbitrary: acc) simp_all

lemma int_unsigned_decimal:
  "ds \<noteq> [] \<Longrightarrow> list_all isdigit ds \<Longrightarrow> int_unsigned ds = Some (decimal ds)"
  by (cases ds) (simp_all add: int_unsigned_def decimal_def int_digits_decimal)

lemma strip_id:
  assumes "s \<noteq> []" and "\<not> isspace (hd s)" and "\<not> isspace (last s)"
  shows "strip s = s"
proof -
  from assms(1,2) have "dropWhile isspace s = s" by (cases s) simp_all
  moreover from assms(1,3) have "dropWhile isspace (rev s) = rev s"
    by (cases "rev s") (simp_all add: hd_rev)
  ultimately show ?thesis by (simp add: strip_def)
qed

lemma py_int_decimal:
  assumes "ds \<noteq> []" and "list_all isdigit ds"
  shows "py_int ds = Inr (int (decimal ds))"
proof -
  from assms have "isdigit (hd ds)" and "isdigit (last ds)"
    by (simp_all add: list_all_iff)
  then have plain: "\<not> isspace (hd ds)" "\<not> isspace (last ds)"
    "hd ds \<noteq> CHR ''-''" "hd ds \<noteq> CHR ''+''"
    by (auto dest: isdigit_plain)
  from strip_id [OF assms(1) plain(1,2)] have s: "strip ds = ds" .
  from assms(1) obtain c cs where ds: "ds = c # cs" by (cases ds) auto
  with plain int_unsigned_decimal [OF assms] s show ?thesis
    by (simp add: py_int_def)
qed

lemma dict_set_keys: "distinct (map fst d) \<Longrightarrow> distinct (map fst (dict_set d k v))"
proof (induction d)
  case Nil
  show ?case by simp
next
  case (Cons item d)
  have "fst ` set (dict_set d k v) \<subseteq> insert k (fst ` set d)" for d :: "('a \<times> 'b) list"
    by (induction d) auto
  with Cons show ?case by auto
qed

lemma dict_set_items: "set (dict_set d k v) \<subseteq> insert (k, v) (set d)"
  by (induction d) auto


section \<open>Facts about the tokenizer\<close>











lemma findall_nonempty: "[] \<notin> set (RE_SPLIT_findall s)"
proof (induction s rule: RE_SPLIT_findall.induct)
  case (1 s)
  show ?case
  proof (cases "s = []")
    case True
    then show ?thesis by (subst RE_SPLIT_findall.simps) simp
  next
    case False
    obtain m r where mr: "re_repeat s = (m, r)" by (cases "re_repeat s")
    show ?thesis
    proof (cases "m = []")
      case True
      with False mr "1.IH" (1) [OF False mr [symmetric] True] show ?thesis
        by (subst RE_SPLIT_findall.simps) simp
    next
      case m: False
      with False mr "1.IH" (2) [OF False mr [symmetric] m] show ?thesis
        by (subst RE_SPLIT_findall.simps) simp
    qed
  qed
qed













section \<open>A header line that raises\<close>

lemma parse_loop_raises:
  assumes "\<And>s :: 'f xvg. parse_header_line s line = Inl e"
    and "startswith line ''@''"
    and "\<forall>l\<in>set front. \<not> startswith l ''//''"
  shows "\<exists>raised. parse_loop (self :: 'f xvg) (front @ line # unseen) vs = Inl raised"
  using assms(3)
proof (induction front arbitrary: self vs)
  case Nil
  from assms(2) have "\<not> startswith line ''//''"
    by (cases line) (auto simp: startswith_simps)
  with assms(1,2) show ?case by simp
next
  case (Cons l front)
  then have IH: "\<exists>raised. parse_loop s (front @ line # unseen) ws = Inl raised"
    for s :: "'f xvg" and ws
    by simp
  from Cons.prems have "\<not> startswith l ''//''" by simp
  then show ?case
    using IH by (cases "parse_header_line self l") auto
qed

section \<open>Facts about the loop of \<^verbatim>\<open>columns\<close>\<close>

lemma columns_loop_place:
  "i \<le> snd item \<Longrightarrow>
   columns_loop (item # rest) i cols =
   columns_loop rest (snd item + 1) (cols @ replicate (nat (snd item - i)) [] @ [fst item])"
proof (induction "nat (snd item - i)" arbitrary: i cols)
  case 0
  then have "snd item = i" by simp
  then show ?case by (subst columns_loop.simps) simp
next
  case (Suc n)
  then have less: "i < snd item" and n: "n = nat (snd item - (i + 1))" by linarith+
  from Suc(2) have rep: "replicate (nat (snd item - i)) ([]::string) = [] # replicate n []"
    by (metis replicate_Suc)
  from less have "columns_loop (item # rest) i cols = columns_loop (item # rest) (i + 1) (cols @ [[]])"
    by (subst columns_loop.simps) simp
  also from Suc(1) [OF n] less
  have "\<dots> = columns_loop rest (snd item + 1)
       ((cols @ [[]]) @ replicate (nat (snd item - (i + 1))) [] @ [fst item])"
    by simp
  finally show ?case using rep n by simp
qed

lemma columns_loop_returns:
  assumes "columns_loop items i cols = Some r"
  shows "items = [] \<or> i \<le> snd (hd items)"
proof (rule columns_loop.raw_induct
    [where P = "\<lambda>items i cols r. items = [] \<or> i \<le> snd (hd items)", OF _ assms])
  fix f :: "(string \<times> int) list \<Rightarrow> int \<Rightarrow> string list \<Rightarrow> string list option"
  fix items i cols r
  assume IH: "\<And>items i cols r. f items i cols = Some r \<Longrightarrow> items = [] \<or> i \<le> snd (hd items)"
    and eq: "(case items of
        [] \<Rightarrow> Some cols
      | item # rest \<Rightarrow>
          if snd item = i then f rest (i + 1) (cols @ [fst item])
          else f items (i + 1) (cols @ [[]])) = Some r"
  show "items = [] \<or> i \<le> snd (hd items)"
  proof (cases items)
    case Nil
    then show ?thesis by simp
  next
    case (Cons item rest)
    show ?thesis
    proof (cases "snd item = i")
      case True
      with Cons show ?thesis by simp
    next
      case False
      with eq Cons have "f items (i + 1) (cols @ [[]]) = Some r" by simp
      from IH [OF this] Cons show ?thesis by simp
    qed
  qed
qed

lemma columns_loop_stuck:
  "snd item < i \<Longrightarrow> columns_loop (item # rest) i cols = None"
  using columns_loop_returns [of "item # rest" i cols]
  by (cases "columns_loop (item # rest) i cols") auto

lemma columns_loop_Some_iff:
  assumes "sorted (map snd items)"
  shows "(\<exists>r. columns_loop items i cols = Some r) \<longleftrightarrow>
         sorted_wrt (<) (map snd items) \<and> (\<forall>item\<in>set items. i \<le> snd item)"
  using assms
proof (induction items arbitrary: i cols)
  case Nil
  show ?case by (subst columns_loop.simps) simp
next
  case (Cons item rest)
  from Cons.prems have sorted_rest: "sorted (map snd rest)"
    and least: "\<forall>x\<in>set rest. snd item \<le> snd x" by simp_all
  show ?case
  proof (cases "i \<le> snd item")
    case False
    then show ?thesis by (simp add: columns_loop_stuck)
  next
    case True
    have "(\<exists>r. columns_loop (item # rest) i cols = Some r) \<longleftrightarrow>
          sorted_wrt (<) (map snd rest) \<and> (\<forall>x\<in>set rest. snd item + 1 \<le> snd x)"
      unfolding columns_loop_place [OF True] by (rule Cons.IH [OF sorted_rest])
    also have "\<dots> \<longleftrightarrow> sorted_wrt (<) (map snd (item # rest)) \<and> (\<forall>x\<in>set (item # rest). i \<le> snd x)"
      using True least by fastforce
    finally show ?thesis .
  qed
qed

lemma name_at_below: "\<forall>item\<in>set items. k < snd item \<Longrightarrow> name_at items k = []"
proof -
  assume "\<forall>item\<in>set items. k < snd item"
  then have "filter (\<lambda>item. snd item = k) items = []"
    by (auto simp: filter_empty_conv)
  then show ?thesis by (simp add: name_at_def)
qed

lemma name_at_head: "name_at (item # rest) (snd item) = fst item"
  by (simp add: name_at_def)

lemma name_at_tail: "k \<noteq> snd item \<Longrightarrow> name_at (item # rest) k = name_at rest k"
  by (auto simp: name_at_def)

lemma map_name_at_gap:
  assumes "\<forall>x\<in>set items. j \<le> snd x"
  shows "map (name_at items) [i..j - 1] = replicate (nat (j - i)) []"
proof -
  have "map (name_at items) [i..j - 1] = map (\<lambda>k. []) [i..j - 1]"
  proof (rule map_cong [OF refl])
    fix k assume "k \<in> set [i..j - 1]"
    then have "k < j" by simp
    with assms have "\<forall>x\<in>set items. k < snd x" by force
    then show "name_at items k = []" by (rule name_at_below)
  qed
  also have "\<dots> = replicate (length [i..j - 1]) []" by (simp add: map_replicate_const)
  also have "length [i..j - 1] = nat (j - i)" by simp
  finally show ?thesis .
qed

lemma columns_loop_value:
  assumes "sorted_wrt (<) (map snd items)" and "\<forall>item\<in>set items. i \<le> snd item"
    and "items \<noteq> []"
  shows "columns_loop items i cols = Some (cols @ map (name_at items) [i..snd (last items)])"
  using assms
proof (induction items arbitrary: i cols)
  case Nil
  then show ?case by simp
next
  case (Cons item rest)
  let ?j = "snd item"
  from Cons.prems have ij: "i \<le> ?j" and above: "\<forall>x\<in>set rest. ?j < snd x"
    and strict: "sorted_wrt (<) (map snd rest)" by simp_all
  from above have all_ge: "\<forall>x\<in>set (item # rest). ?j \<le> snd x" by force
  note gap = map_name_at_gap [OF all_ge, of i]
  show ?case
  proof (cases "rest = []")
    case True
    have "columns_loop (item # rest) i cols = Some (cols @ replicate (nat (?j - i)) [] @ [fst item])"
      unfolding columns_loop_place [OF ij] True by (subst columns_loop.simps) simp
    moreover have "map (name_at (item # rest)) [i..?j] =
        replicate (nat (?j - i)) [] @ [fst item]"
      using gap by (simp add: upto_rec2 [OF ij] name_at_head)
    ultimately show ?thesis using True by simp
  next
    case False
    let ?l = "snd (last rest)"
    from False above have jl: "?j < ?l" by simp
    from above have next_ge: "\<forall>x\<in>set rest. ?j + 1 \<le> snd x" by force
    have tail: "map (name_at (item # rest)) [?j + 1..?l] = map (name_at rest) [?j + 1..?l]"
      by (rule map_cong [OF refl]) (simp add: name_at_tail)
    have "columns_loop (item # rest) i cols =
        Some ((cols @ replicate (nat (?j - i)) [] @ [fst item]) @ map (name_at rest) [?j + 1..?l])"
      unfolding columns_loop_place [OF ij]
      by (rule Cons.IH [OF strict next_ge False])
    moreover have "map (name_at (item # rest)) [i..?l] =
        replicate (nat (?j - i)) [] @ [fst item] @ map (name_at rest) [?j + 1..?l]"
      using gap tail jl ij by (simp add: upto_split3 [of i ?j ?l] name_at_head)
    ultimately show ?thesis using False by simp
  qed
qed


lemma distinct_map_sort_key: "distinct (map f (sort_key g xs)) \<longleftrightarrow> distinct (map f xs)"
  by (simp add: distinct_map)

lemma strict_sorted_items:
  "sorted_wrt (<) (map snd (sort_key snd d)) \<longleftrightarrow> distinct (map snd d)"
  by (simp add: strict_sorted_iff distinct_map_sort_key)

lemma filter_index_short:
  "distinct (map snd d) \<Longrightarrow> length (filter (\<lambda>item. snd item = k) d) \<le> 1"
proof (induction d)
  case Nil
  show ?case by simp
next
  case (Cons item d)
  show ?case
  proof (cases "snd item = k")
    case True
    from Cons.prems have fresh: "snd item \<notin> snd ` set d" by simp
    have "\<forall>x\<in>set d. snd x \<noteq> k"
    proof
      fix x assume "x \<in> set d"
      then have "snd x \<in> snd ` set d" by (rule imageI)
      with fresh True show "snd x \<noteq> k" by metis
    qed
    then have "filter (\<lambda>item. snd item = k) d = []"
      by (simp add: filter_empty_conv)
    with True show ?thesis by simp
  next
    case False
    with Cons show ?thesis by simp
  qed
qed

lemma name_at_sort_key:
  assumes "distinct (map snd d)"
  shows "name_at (sort_key snd d) k = name_at d k"
proof -
  let ?hits = "filter (\<lambda>item. snd item = k) d"
  from filter_index_short [OF assms, of k] have "?hits = [] \<or> (\<exists>x. ?hits = [x])"
    by (cases ?hits) (auto simp: Suc_le_eq)
  then have "sort_key snd ?hits = ?hits" by auto
  then have "filter (\<lambda>item. snd item = k) (sort_key snd d) = ?hits"
    by (simp add: filter_sort)
  then show ?thesis by (simp add: name_at_def)
qed

lemma last_sorted_Max:
  assumes "sorted xs" and "xs \<noteq> []"
  shows "last xs = Max (set xs)"
proof (rule Max_eqI [symmetric])
  show "finite (set xs)" by simp
  show "last xs \<in> set xs" using assms(2) by simp
  fix y assume "y \<in> set xs"
  with assms show "y \<le> last xs"
    by (induction xs) (auto split: if_splits)
qed

lemma last_items_Max:
  assumes "d \<noteq> []"
  shows "snd (last (sort_key snd d)) = Max (snd ` set d)"
proof -
  from assms have ne: "sort_key snd d \<noteq> []" by (metis length_sort length_0_conv)
  then have "snd (last (sort_key snd d)) = last (map snd (sort_key snd d))"
    by (simp add: last_map)
  also have "\<dots> = Max (set (map snd (sort_key snd d)))"
    using ne by (intro last_sorted_Max) (simp_all add: sorted_sort_key)
  finally show ?thesis by simp
qed

lemma columns_returns:
  assumes "columns self = Some r"
  shows "distinct (map snd (self_columns self)) \<and> (\<forall>item\<in>set (self_columns self). 0 \<le> snd item)"
  using columns_loop_Some_iff [of "sort_key snd (self_columns self)" 0 "[]"] assms
  by (simp add: columns_def strict_sorted_items sorted_sort_key)

lemma columns_value:
  assumes "distinct (map snd (self_columns self))"
    and "\<forall>item\<in>set (self_columns self). 0 \<le> snd item"
  shows "columns self = Some (aligned (self_columns self))"
proof (cases "self_columns self = []")
  case True
  then have "columns self = Some []"
    unfolding columns_def by (subst columns_loop.simps) simp
  with True show ?thesis by (simp add: aligned_def)
next
  case False
  let ?d = "self_columns self"
  let ?top = "Max (snd ` set ?d)"
  from False have ne: "sort_key snd ?d \<noteq> []" by (metis length_sort length_0_conv)
  from assms(2) have ge: "\<forall>item\<in>set (sort_key snd ?d). 0 \<le> snd item" by simp
  from assms(1) have strict: "sorted_wrt (<) (map snd (sort_key snd ?d))"
    by (simp add: strict_sorted_items)
  have "columns self = Some (map (name_at (sort_key snd ?d)) [0..?top])"
    unfolding columns_def
    using columns_loop_value [OF strict ge ne, of "[]"] last_items_Max [OF False] by simp
  moreover have "map (name_at (sort_key snd ?d)) [0..?top] = map (name_at ?d) [0..?top]"
    by (rule map_cong [OF refl]) (rule name_at_sort_key [OF assms(1)])
  ultimately show ?thesis using False by (simp add: aligned_def)
qed

lemma length_aligned:
  assumes "d \<noteq> []" and "\<forall>item\<in>set d. 0 \<le> snd item"
  shows "int (length (aligned d)) = Max (snd ` set d) + 1"
proof -
  from assms(1) obtain x where x: "x \<in> set d" by (cases d) auto
  with assms(2) have "0 \<le> snd x" and "snd x \<le> Max (snd ` set d)" by simp_all
  then have "0 \<le> Max (snd ` set d)" by linarith
  with assms(1) show ?thesis by (simp add: aligned_def)
qed

section \<open>Some legend directives, evaluated\<close>

lemma legend_s0_A:
  "parse_header_line self ''@ s0 legend A'' =
     Inr (self\<lparr>self_columns := dict_set (self_columns self) ''A'' 1\<rparr>)"
proof -
  have "header_tokens ''@ s0 legend A'' = [''s0'', ''legend'', ''A'']"
    by (simp add: header_eval)
  moreover have "py_int ''0'' = Inr 0" by (simp add: int_eval)
  ultimately show ?thesis
    by (simp add: parse_header_line_def translate_commands_def startswith_simps)
qed

lemma legend_s0_B:
  "parse_header_line self ''@ s0 legend B'' =
     Inr (self\<lparr>self_columns := dict_set (self_columns self) ''B'' 1\<rparr>)"
proof -
  have "header_tokens ''@ s0 legend B'' = [''s0'', ''legend'', ''B'']"
    by (simp add: header_eval)
  moreover have "py_int ''0'' = Inr 0" by (simp add: int_eval)
  ultimately show ?thesis
    by (simp add: parse_header_line_def translate_commands_def startswith_simps)
qed

lemma legend_s2_C:
  "parse_header_line self ''@ s2 legend C'' =
     Inr (self\<lparr>self_columns := dict_set (self_columns self) ''C'' 3\<rparr>)"
proof -
  have "header_tokens ''@ s2 legend C'' = [''s2'', ''legend'', ''C'']"
    by (simp add: header_eval)
  moreover have "py_int ''2'' = Inr 2" by (simp add: int_eval)
  ultimately show ?thesis
    by (simp add: parse_header_line_def translate_commands_def startswith_simps)
qed

lemma legend_negative_A:
  "parse_header_line self ''@ s-5 legend A'' =
     Inr (self\<lparr>self_columns := dict_set (self_columns self) ''A'' (- 4)\<rparr>)"
proof -
  have "header_tokens ''@ s-5 legend A'' = [''s-5'', ''legend'', ''A'']"
    by (simp add: header_eval)
  moreover have "py_int ''-5'' = Inr (- 5)" by (simp add: int_eval)
  ultimately show ?thesis
    by (simp add: parse_header_line_def translate_commands_def startswith_simps)
qed

section \<open>Legend directives\<close>



section \<open>Access by name\<close>

text \<open>
  Claim C2. For a name registered at index \<open>j\<close>, access by the name is access to the
  matrix with the key \<^verbatim>\<open>(slice(None), j)\<close>, and on a matrix with a row and with \<open>j\<close> among
  its columns it is the one-dimensional array of the entries at position \<open>j\<close> of the
  rows. Every key that has no hash or is not in \<^verbatim>\<open>_columns\<close> goes to the indexing of the
  matrix as it is; only a string is ever found in \<^verbatim>\<open>_columns\<close>.
\<close>

theorem getitem_resolution:
  "(map_of (self_columns self) name = Some j \<longrightarrow>
      getitem native self (KStr name) = take_column (self_array self) j
      \<and> getitem native self (KStr name) =
          getitem native self (KTuple [KSlice None None None, KInt j])
      \<and> (\<forall>rows. self_array self = Array2 rows \<and> rows \<noteq> [] \<and> 0 \<le> j \<and> j < ncols rows \<longrightarrow>
            getitem native self (KStr name) =
              Inr (NdArray (Array1 (map (\<lambda>r. r ! nat j) rows)))))
   \<and> (\<not> (hashable k \<and> dict_get (self_columns self) k \<noteq> None) \<longrightarrow>
        getitem native self k = ndarray_getitem native (self_array self) k)
   \<and> (dict_get (self_columns self) k \<noteq> None \<longrightarrow> (\<exists>s. k = KStr s))"
proof (intro conjI impI allI)
  assume reg: "map_of (self_columns self) name = Some j"
  then show by_name: "getitem native self (KStr name) = take_column (self_array self) j"
    by (simp add: getitem_def ndarray_getitem_def)
  show "getitem native self (KStr name) =
      getitem native self (KTuple [KSlice None None None, KInt j])"
    unfolding by_name by (simp add: getitem_def ndarray_getitem_def)
  fix rows
  assume "self_array self = Array2 rows \<and> rows \<noteq> [] \<and> 0 \<le> j \<and> j < ncols rows"
  then show "getitem native self (KStr name) =
      Inr (NdArray (Array1 (map (\<lambda>r. r ! nat j) rows)))"
    unfolding by_name by simp
next
  assume "\<not> (hashable k \<and> dict_get (self_columns self) k \<noteq> None)"
  then show "getitem native self k = ndarray_getitem native (self_array self) k"
    by (auto simp: getitem_def)
next
  assume "dict_get (self_columns self) k \<noteq> None"
  then show "\<exists>s. k = KStr s" by (cases k) simp_all
qed

theorem getitem_resolution_witness:
  "getitem (\<lambda>a k. Inl IndexError)
     (init\<lparr>self_columns := [(''X'', 1)], self_array := Array2 [[10, 20], [30, 40 :: int]]\<rparr>)
     (KStr ''X'') = Inr (NdArray (Array1 [20, 40]))
   \<and> getitem (\<lambda>a k. Inl IndexError)
     (init\<lparr>self_columns := [(''X'', 1)], self_array := Array2 [[10, 20], [30, 40 :: int]]\<rparr>)
     (KTuple [KSlice None None None, KInt 1]) = Inr (NdArray (Array1 [20, 40]))
   \<and> getitem (\<lambda>a k. Inl IndexError)
     (init\<lparr>self_columns := [(''X'', 1)], self_array := Array2 [[10, 20], [30, 40 :: int]]\<rparr>)
     (KStr ''Y'') = Inl IndexError"
  using getitem_resolution [of
      "init\<lparr>self_columns := [(''X'', 1)], self_array := Array2 [[10, 20], [30, 40 :: int]]\<rparr>"
      "''X''" 1 "\<lambda>a k. Inl IndexError" "KStr ''Y''"]
  by (auto simp: ncols_def ndarray_getitem_def)

section \<open>Malformed data rows\<close>

text \<open>
  Claim C3. When the line loop has run to its end and the rows it has gathered do not
  all have the same number of tokens, or hold a token that does not convert to a float,
  \<open>parse\<close> raises \<^verbatim>\<open>ValueError\<close> at the assembly of the matrix, and the matrix of the
  object is the one it had before the call. The rows \<^verbatim>\<open>1 2 3\<close> and \<^verbatim>\<open>4 5\<close> are the
  instance below.
\<close>

theorem parse_malformed_rows_raise:
  assumes "parse_loop self content [] = Inr (self', vs, unread)"
    and "(\<exists>r\<in>set vs. \<exists>r'\<in>set vs. length r \<noteq> length r')
         \<or> (\<exists>r\<in>set vs. \<exists>t\<in>set r. to_float t = None)"
  shows "parse to_float self content = Inl (ValueError, self')
         \<and> self_array self' = self_array self"
proof -
  from assms(2) have "numpy_array to_float vs = Inl ValueError"
    by (auto intro: numpy_array_ragged numpy_array_unparsed)
  with assms(1) have "parse to_float self content = Inl (ValueError, self')"
    by (simp add: parse_def)
  with parse_loop_array [OF assms(1)] show ?thesis by simp
qed

theorem parse_malformed_rows_raise_witness:
  "parse_loop (init :: int xvg) [''1 2 3'', ''4 5''] [] =
     Inr (init, [[''1'', ''2'', ''3''], [''4'', ''5'']], [])
   \<and> parse dec_float init [''1 2 3'', ''4 5''] = Inl (ValueError, init)
   \<and> self_array (init :: int xvg) = Array1 []"
proof -
  have loop: "parse_loop (init :: int xvg) [''1 2 3'', ''4 5''] [] =
     Inr (init, [[''1'', ''2'', ''3''], [''4'', ''5'']], [])"
    by (simp add: startswith_simps split_def isspace_def)
  have ragged: "(\<exists>r\<in>set [[''1'', ''2'', ''3''], [''4'', ''5'']].
                 \<exists>r'\<in>set [[''1'', ''2'', ''3''], [''4'', ''5'']]. length r \<noteq> length r')
         \<or> (\<exists>r\<in>set [[''1'', ''2'', ''3''], [''4'', ''5'']]. \<exists>t\<in>set r. dec_float t = None)"
    by (intro disjI1 bexI [of _ "[''1'', ''2'', ''3'']"] bexI [of _ "[''4'', ''5'']"]) simp_all
  from parse_malformed_rows_raise [OF loop ragged] loop show ?thesis
    by (simp add: init_def)
qed

section \<open>The terminator\<close>

text \<open>
  Claim C4. For every sequence of lines, \<open>parse\<close> stops at the first line that starts
  with \<^verbatim>\<open>//\<close>: the outcome is that of parsing the lines before it alone (so the
  terminator raises nothing), and the lines after it are exactly the ones left unread.
  In particular the lines \<^verbatim>\<open>@ title "T"\<close>, \<^verbatim>\<open>1 2\<close>, \<^verbatim>\<open>// stop\<close>, \<^verbatim>\<open>3 4\<close> give a matrix of the
  one row \<open>[1.0, 2.0]\<close>, whatever numbers the conversion makes of \<^verbatim>\<open>1\<close> and \<^verbatim>\<open>2\<close>.
\<close>

theorem parse_stops_at_terminator:
  assumes "\<forall>l\<in>set front. \<not> startswith l ''//''" and "startswith t ''//''"
  shows "parse to_float self (front @ t # unseen) =
           (case parse to_float self front of
              Inl raised \<Rightarrow> Inl raised
            | Inr (self', unread) \<Rightarrow> Inr (self', unseen))
         \<and> (to_float ''1'' = Some one \<and> to_float ''2'' = Some two \<longrightarrow>
              parse to_float init
                [''@ title '' @ [dquote] @ ''T'' @ [dquote], ''1 2'', ''// stop'', ''3 4''] =
              Inr (init\<lparr>title := ''T'', self_array := Array2 [[one, two]]\<rparr>, [''3 4'']))"
proof
  show "parse to_float self (front @ t # unseen) =
           (case parse to_float self front of
              Inl raised \<Rightarrow> Inl raised
            | Inr (self', unread) \<Rightarrow> Inr (self', unseen))"
    using parse_loop_terminator [OF assms, of self unseen "[]"]
    by (auto simp: parse_def split: sum.splits)
next
  have tokens: "header_tokens (''@ title '' @ [dquote] @ ''T'' @ [dquote]) = [''title'', ''T'']"
    by (simp add: header_tokens_def strip_def isspace_def RE_SPLIT_findall.simps
        re_repeat.simps dquote_def squote_def unquote_def)
  have header: "parse_header_line (init :: 'a xvg) (''@ title '' @ [dquote] @ ''T'' @ [dquote]) =
      Inr (init\<lparr>title := ''T''\<rparr>)"
    using tokens by (simp add: parse_header_line_def)
  have loop: "parse_loop (init :: 'a xvg)
      [''@ title '' @ [dquote] @ ''T'' @ [dquote], ''1 2'', ''// stop'', ''3 4''] [] =
      Inr (init\<lparr>title := ''T''\<rparr>, [[''1'', ''2'']], [''3 4''])"
    using header by (simp add: startswith_simps split_def isspace_def)
  show "to_float ''1'' = Some one \<and> to_float ''2'' = Some two \<longrightarrow>
      parse to_float init
        [''@ title '' @ [dquote] @ ''T'' @ [dquote], ''1 2'', ''// stop'', ''3 4''] =
      Inr (init\<lparr>title := ''T'', self_array := Array2 [[one, two]]\<rparr>, [''3 4''])"
    using loop by (simp add: parse_def numpy_array_def)
qed

theorem parse_stops_at_terminator_witness:
  "startswith ''// stop'' ''//''
   \<and> parse dec_float init [''@ title '' @ [dquote] @ ''T'' @ [dquote], ''1 2''] =
       Inr (init\<lparr>title := ''T'', self_array := Array2 [[1, 2]]\<rparr>, [])
   \<and> parse dec_float init
       [''@ title '' @ [dquote] @ ''T'' @ [dquote], ''1 2'', ''// stop'', ''3 4''] =
       Inr (init\<lparr>title := ''T'', self_array := Array2 [[1, 2]]\<rparr>, [''3 4''])"
proof -
  have f: "dec_float ''1'' = Some 1 \<and> dec_float ''2'' = Some 2"
    by (simp add: dec_float_def decimal_def isdigit_def digit_value_def)
  have a: "\<forall>l\<in>set [''@ title '' @ [dquote] @ ''T'' @ [dquote], ''1 2'']. \<not> startswith l ''//''"
    by (simp add: startswith_simps)
  have b: "startswith ''// stop'' ''//''"
    by (simp add: startswith_simps)
  have tokens: "header_tokens (''@ title '' @ [dquote] @ ''T'' @ [dquote]) = [''title'', ''T'']"
    by (simp add: header_tokens_def strip_def isspace_def RE_SPLIT_findall.simps
        re_repeat.simps dquote_def squote_def unquote_def)
  have front: "parse dec_float init [''@ title '' @ [dquote] @ ''T'' @ [dquote], ''1 2''] =
       Inr (init\<lparr>title := ''T'', self_array := Array2 [[1, 2]]\<rparr>, [])"
    using tokens f
    by (simp add: parse_def parse_header_line_def startswith_simps split_def isspace_def
        numpy_array_def)
  from parse_stops_at_terminator [OF a b, of dec_float init "[''3 4'']" 1 2] f b front
  show ?thesis
    by simp
qed

section \<open>Inputs without data rows\<close>

text \<open>
  Claim C5, as the code has it. When every line is a header directive or a comment and
  the directives all parse, \<open>parse\<close> gives the object that the directives produce, in
  their order, with the one-dimensional array of length 0 as its matrix, and leaves no
  line unread.
\<close>

theorem parse_no_data_rows:
  assumes "\<forall>l\<in>set content. startswith l ''@'' \<or> startswith l ''#''"
    and "apply_directives self (filter (\<lambda>l. startswith l ''@'') content) = Inr self'"
  shows "parse to_float self content = Inr (self'\<lparr>self_array := Array1 []\<rparr>, [])"
  using parse_loop_no_rows [OF assms(1), of self "[]"] assms(2)
  by (simp add: parse_def numpy_array_def)

theorem parse_no_data_rows_witness:
  "parse dec_float init [''# a comment'', ''@ title T'', ''@ s0 legend A''] =
     Inr (init\<lparr>title := ''T'', self_columns := [(''A'', 1)]\<rparr>, [])"
proof -
  have t1: "header_tokens ''@ title T'' = [''title'', ''T'']"
    by (simp add: header_tokens_def strip_def isspace_def RE_SPLIT_findall.simps
        re_repeat.simps dquote_def squote_def unquote_def)
  have t2: "header_tokens ''@ s0 legend A'' = [''s0'', ''legend'', ''A'']"
    by (simp add: header_tokens_def strip_def isspace_def RE_SPLIT_findall.simps
        re_repeat.simps dquote_def squote_def unquote_def)
  have i: "py_int ''0'' = Inr 0"
    by (simp add: py_int_def strip_def isspace_def int_unsigned_def isdigit_def digit_value_def)
  have kinds: "\<forall>l\<in>set [''# a comment'', ''@ title T'', ''@ s0 legend A''].
      startswith l ''@'' \<or> startswith l ''#''"
    by (simp add: startswith_simps)
  have dirs: "apply_directives (init :: int xvg)
      (filter (\<lambda>l. startswith l ''@'') [''# a comment'', ''@ title T'', ''@ s0 legend A'']) =
      Inr (init\<lparr>title := ''T'', self_columns := [(''A'', 1)]\<rparr>)"
    by (simp add: startswith_simps parse_header_line_def t1 t2 i translate_commands_def init_def)
  from parse_no_data_rows [OF kinds dirs, of dec_float] show ?thesis
    by (simp add: init_def)
qed

text \<open>
  An empty line is not such a line: it is neither a directive nor a comment, so it is
  split like a data row and adds a row of no tokens. One empty line gives a matrix of
  shape \<open>(1, 0)\<close>, not the one-dimensional array of length 0.
\<close>

theorem parse_empty_line_counterexample:
  "\<not> startswith [] ''//'' \<and> \<not> startswith [] ''@'' \<and> \<not> startswith [] ''#'' \<and> split [] = []
   \<and> parse dec_float init [[]] = Inr (init\<lparr>self_array := Array2 [[]]\<rparr>, [])
   \<and> Array2 [[]] \<noteq> (Array1 [] :: int ndarray)"
  by (simp add: parse_def startswith_simps split_def numpy_array_def)

section \<open>Directives that are not recognized\<close>

text \<open>
  Claim C6, as the code has it. A header line whose command is not \<^verbatim>\<open>title\<close>, \<^verbatim>\<open>xaxis\<close>
  or \<^verbatim>\<open>yaxis\<close> changes nothing and raises nothing when the command does not start with
  \<^verbatim>\<open>s\<close>, or when it has a first argument and that argument is not \<^verbatim>\<open>legend\<close>.
\<close>

theorem unrecognized_directive_ignored:
  assumes "header_tokens line = command # tokens"
    and "command \<notin> {''title'', ''xaxis'', ''yaxis''}"
    and "\<not> startswith command ''s'' \<or> (tokens \<noteq> [] \<and> hd tokens \<noteq> ''legend'')"
  shows "parse_header_line self line = Inr self"
  using assms
  by (cases tokens) (auto simp: parse_header_line_def translate_commands_def)

theorem unrecognized_directive_ignored_witness:
  "header_tokens ''@ subtitle over time'' = [''subtitle'', ''over'', ''time'']
   \<and> header_tokens ''@ TYPE xy'' = [''TYPE'', ''xy'']
   \<and> parse_header_line (init :: int xvg) ''@ subtitle over time'' = Inr init
   \<and> parse_header_line (init :: int xvg) ''@ TYPE xy'' = Inr init"
proof -
  have a: "header_tokens ''@ subtitle over time'' = [''subtitle'', ''over'', ''time'']"
    by (simp add: header_eval)
  have b: "header_tokens ''@ TYPE xy'' = [''TYPE'', ''xy'']"
    by (simp add: header_eval)
  have a1: "''subtitle'' \<notin> {''title'', ''xaxis'', ''yaxis''}" by simp
  have b1: "''TYPE'' \<notin> {''title'', ''xaxis'', ''yaxis''}" by simp
  have a2: "\<not> startswith ''subtitle'' ''s'' \<or> ([''over'', ''time''] \<noteq> [] \<and> hd [''over'', ''time''] \<noteq> ''legend'')"
    by simp
  have b2: "\<not> startswith ''TYPE'' ''s'' \<or> ([''xy''] \<noteq> [] \<and> hd [''xy''] \<noteq> ''legend'')"
    by (simp add: startswith_simps)
  from unrecognized_directive_ignored [OF a a1 a2, of init]
    unrecognized_directive_ignored [OF b b1 b2, of init] a b
  show ?thesis by simp
qed

text \<open>
  The other lines that are not legend directives are not ignored. A command that starts
  with \<^verbatim>\<open>s\<close> and has no argument raises \<^verbatim>\<open>IndexError\<close> at \<^verbatim>\<open>tokens[0]\<close>, and one
  followed by \<^verbatim>\<open>legend\<close> is read as a legend directive whatever follows its \<^verbatim>\<open>s\<close>:
  \<^verbatim>\<open>int()\<close> raises \<^verbatim>\<open>ValueError\<close> on \<^verbatim>\<open>x\<close>.
\<close>

theorem unrecognized_directive_counterexample:
  "header_tokens ''@ subtitle'' = [''subtitle'']
   \<and> parse_header_line (init :: int xvg) ''@ subtitle'' = Inl IndexError
   \<and> header_tokens ''@ sx legend A'' = [''sx'', ''legend'', ''A'']
   \<and> parse_header_line (init :: int xvg) ''@ sx legend A'' = Inl ValueError"
proof -
  have a: "header_tokens ''@ subtitle'' = [''subtitle'']"
    by (simp add: header_eval)
  have b: "header_tokens ''@ sx legend A'' = [''sx'', ''legend'', ''A'']"
    by (simp add: header_eval)
  have i: "py_int ''x'' = Inl ValueError"
    by (simp add: int_eval)
  from a b i show ?thesis
    by (simp add: parse_header_line_def translate_commands_def startswith_simps)
qed

section \<open>The invariant of \<^verbatim>\<open>_columns\<close>\<close>

text \<open>
  Claim C7, as the code has it. Every directive that parses, and whose legend index (if
  it is a legend directive) is written in decimal digits only, keeps this invariant: the
  names of \<^verbatim>\<open>_columns\<close> are distinct and its values are integers from 1 upward. The
  values need not be distinct.
\<close>

theorem columns_invariant:
  assumes "distinct (map fst (self_columns self))"
    and "\<forall>item\<in>set (self_columns self). 1 \<le> snd item"
    and "parse_header_line self line = Inr self'"
    and "\<forall>command tokens. header_tokens line = command # ''legend'' # tokens \<longrightarrow>
           startswith command ''s'' \<longrightarrow> list_all isdigit (drop 1 command)"
  shows "distinct (map fst (self_columns self'))
         \<and> (\<forall>item\<in>set (self_columns self'). 1 \<le> snd item)"
proof (cases "\<exists>command tokens n. header_tokens line = command # ''legend'' # tokens
    \<and> startswith command ''s'' \<and> command \<notin> {''title'', ''xaxis'', ''yaxis''}")
  case False
  with assms(3) have "self_columns self' = self_columns self"
    by (auto simp: parse_header_line_def translate_commands_def setattr_def
        split: list.splits if_splits sum.splits)
  with assms(1,2) show ?thesis by simp
next
  case True
  then obtain command tokens where t: "header_tokens line = command # ''legend'' # tokens"
    and s: "startswith command ''s''" and c: "command \<notin> {''title'', ''xaxis'', ''yaxis''}"
    by blast
  from assms(4) t s have digits: "list_all isdigit (drop 1 command)" by blast
  from assms(3) t s c obtain n where n: "py_int (drop 1 command) = Inr n"
    and new: "self_columns self' = dict_set (self_columns self) (last tokens) (n + 1)"
    by (auto simp: parse_header_line_def translate_commands_def split: sum.splits list.splits)
  have "0 \<le> n"
  proof (cases "drop 1 command = []")
    case True
    with n show ?thesis by (simp add: py_int_def strip_def)
  next
    case False
    from py_int_decimal [OF False digits] n show ?thesis by simp
  qed
  with assms(2) dict_set_items [of "self_columns self" "last tokens" "n + 1"]
  have "\<forall>item\<in>set (dict_set (self_columns self) (last tokens) (n + 1)). 1 \<le> snd item"
    by auto
  with new dict_set_keys [OF assms(1)] show ?thesis by simp
qed

theorem columns_invariant_witness:
  "parse_header_line (init\<lparr>self_columns := [(''A'', 1)]\<rparr> :: int xvg) ''@ s2 legend C'' =
     Inr (init\<lparr>self_columns := [(''A'', 1), (''C'', 3)]\<rparr>)
   \<and> distinct (map fst [(''A'', 1 :: int), (''C'', 3)])
   \<and> list_all (\<lambda>item. 1 \<le> snd item) [(''A'', 1 :: int), (''C'', 3)]"
proof -
  let ?st = "init\<lparr>self_columns := [(''A'', 1)]\<rparr> :: int xvg"
  let ?st' = "init\<lparr>self_columns := [(''A'', 1), (''C'', 3)]\<rparr> :: int xvg"
  have a: "distinct (map fst (self_columns ?st))" by simp
  have b: "\<forall>item\<in>set (self_columns ?st). 1 \<le> snd item" by simp
  have c: "parse_header_line ?st ''@ s2 legend C'' = Inr ?st'"
    by (simp add: legend_s2_C init_def)
  have t: "header_tokens ''@ s2 legend C'' = [''s2'', ''legend'', ''C'']"
    by (simp add: header_eval)
  have d: "\<forall>command tokens. header_tokens ''@ s2 legend C'' = command # ''legend'' # tokens \<longrightarrow>
           startswith command ''s'' \<longrightarrow> list_all isdigit (drop 1 command)"
    unfolding t by (simp add: isdigit_def)
  from columns_invariant [OF a b c d] c show ?thesis by simp
qed

text \<open>
  Two names registered under the same legend index get the same column: the values
  are not unique.
\<close>

theorem columns_same_index_counterexample:
  "apply_directives (init :: int xvg) [''@ s0 legend A'', ''@ s0 legend B''] =
     Inr (init\<lparr>self_columns := [(''A'', 1), (''B'', 1)]\<rparr>)
   \<and> ''A'' \<noteq> ''B''
   \<and> map_of [(''A'', 1 :: int), (''B'', 1)] ''A'' = map_of [(''A'', 1), (''B'', 1)] ''B''"
  by (simp add: legend_s0_A legend_s0_B init_def)

section \<open>The list of column names\<close>

text \<open>
  Claim C8. \<^verbatim>\<open>columns\<close> lays the registered names out by column: when it returns, the
  list has at each position the name registered there, or the empty string, from
  position 0 to the highest registered index, so its length is that index plus one; and
  it does return when the registered indices are distinct and not negative. Names
  registered by \<^verbatim>\<open>s0\<close> and \<^verbatim>\<open>s2\<close> give \<^verbatim>\<open>["", "name0", "", "name2"]\<close>.
\<close>

theorem columns_aligned_by_index:
  "(distinct (map snd (self_columns self)) \<and> (\<forall>item\<in>set (self_columns self). 0 \<le> snd item) \<longrightarrow>
      columns self = Some (aligned (self_columns self)))
   \<and> (columns self = Some r \<longrightarrow>
        r = aligned (self_columns self)
        \<and> (self_columns self \<noteq> [] \<longrightarrow>
             int (length r) = Max (snd ` set (self_columns self)) + 1))"
proof (intro conjI impI)
  assume "distinct (map snd (self_columns self)) \<and> (\<forall>item\<in>set (self_columns self). 0 \<le> snd item)"
  then show "columns self = Some (aligned (self_columns self))"
    by (simp add: columns_value)
next
  assume r: "columns self = Some r"
  note pre = columns_returns [OF r]
  with r show "r = aligned (self_columns self)" by (simp add: columns_value)
  then show "int (length r) = Max (snd ` set (self_columns self)) + 1"
    if "self_columns self \<noteq> []"
    using that pre by (simp add: length_aligned)
qed

theorem columns_aligned_by_index_witness:
  "apply_directives (init :: int xvg) [''@ s0 legend name0'', ''@ s2 legend name2''] =
     Inr (init\<lparr>self_columns := [(''name0'', 1), (''name2'', 3)]\<rparr>)
   \<and> columns (init\<lparr>self_columns := [(''name0'', 1), (''name2'', 3)]\<rparr> :: int xvg) =
       Some [[], ''name0'', [], ''name2'']
   \<and> int (length [[], ''name0'', [], ''name2'']) = 3 + 1"
proof -
  let ?st = "init\<lparr>self_columns := [(''name0'', 1), (''name2'', 3)]\<rparr> :: int xvg"
  have t0: "header_tokens ''@ s0 legend name0'' = [''s0'', ''legend'', ''name0'']"
    by (simp add: header_eval)
  have t2: "header_tokens ''@ s2 legend name2'' = [''s2'', ''legend'', ''name2'']"
    by (simp add: header_eval)
  have i: "py_int ''0'' = Inr 0" "py_int ''2'' = Inr 2" by (simp_all add: int_eval)
  have run: "apply_directives (init :: int xvg) [''@ s0 legend name0'', ''@ s2 legend name2''] =
      Inr ?st"
    using t0 t2 i
    by (simp add: parse_header_line_def translate_commands_def startswith_simps init_def)
  have u: "[0..3] = [0, 1, 2, 3 :: int]" by code_simp
  have a: "aligned (self_columns ?st) = [[], ''name0'', [], ''name2'']"
    by (simp add: aligned_def name_at_def u)
  from columns_aligned_by_index [of ?st "[[], ''name0'', [], ''name2'']"] run a
  show ?thesis by simp
qed

section \<open>Missing arguments\<close>

text \<open>
  Claim C9. A header line that is only \<^verbatim>\<open>title\<close>, \<^verbatim>\<open>xaxis\<close> or \<^verbatim>\<open>yaxis\<close>, or only \<^verbatim>\<open>sN\<close>
  and \<^verbatim>\<open>legend\<close>, raises \<^verbatim>\<open>IndexError\<close>, and \<open>parse\<close> raises on every input that has such
  a line before any terminator.
\<close>

theorem missing_argument_raises:
  assumes "(\<exists>command. header_tokens line = [command] \<and> command \<in> {''title'', ''xaxis'', ''yaxis''})
           \<or> (\<exists>ds. header_tokens line = [''s'' @ ds, ''legend''] \<and> ds \<noteq> [] \<and> list_all isdigit ds)"
    and "startswith line ''@''"
    and "\<forall>l\<in>set front. \<not> startswith l ''//''"
  shows "parse_header_line self line = Inl IndexError
         \<and> (\<exists>raised. parse to_float self (front @ line # unseen) = Inl raised)"
proof -
  have raise: "parse_header_line s line = Inl IndexError" for s :: "'a xvg"
    using assms(1)
  proof (elim disjE exE conjE)
    fix command
    assume "header_tokens line = [command]" and "command \<in> {''title'', ''xaxis'', ''yaxis''}"
    then show ?thesis
      by (auto simp: parse_header_line_def translate_commands_def)
  next
    fix ds
    assume "header_tokens line = [''s'' @ ds, ''legend'']" and "ds \<noteq> []" and "list_all isdigit ds"
    then show ?thesis
      by (simp add: parse_header_line_def translate_commands_def startswith_simps py_int_decimal)
  qed
  from parse_loop_raises [of line IndexError front self unseen "[]", OF raise assms(2,3)]
  obtain raised where "parse_loop self (front @ line # unseen) [] = Inl raised" by blast
  then have "parse to_float self (front @ line # unseen) = Inl raised"
    by (simp add: parse_def)
  with raise show ?thesis by blast
qed

theorem missing_argument_raises_witness:
  "header_tokens ''@ title'' = [''title'']
   \<and> startswith ''@ title'' ''@''
   \<and> parse_header_line (init :: int xvg) ''@ title'' = Inl IndexError
   \<and> (\<exists>raised. parse dec_float init [''1 2'', ''@ title'', ''3 4''] = Inl raised)"
proof -
  have t: "header_tokens ''@ title'' = [''title'']"
    by (simp add: header_eval)
  then have a: "(\<exists>command. header_tokens ''@ title'' = [command] \<and> command \<in> {''title'', ''xaxis'', ''yaxis''})
           \<or> (\<exists>ds. header_tokens ''@ title'' = [''s'' @ ds, ''legend''] \<and> ds \<noteq> [] \<and> list_all isdigit ds)"
    by simp
  have b: "startswith ''@ title'' ''@''" by (simp add: startswith_simps)
  have c: "\<forall>l\<in>set [''1 2'']. \<not> startswith l ''//''" by (simp add: startswith_simps)
  from missing_argument_raises [OF a b c, of init dec_float "[''3 4'']"] t b
  show ?thesis by simp
qed

section \<open>Termination of \<^verbatim>\<open>columns\<close>\<close>

text \<open>
  Claim C10, as the code has it. \<^verbatim>\<open>columns\<close> returns exactly when the registered indices
  are pairwise distinct and none of them is negative. After \<^verbatim>\<open>@ s0 legend A\<close> and
  \<^verbatim>\<open>@ s0 legend B\<close> its loop never ends.
\<close>

theorem columns_terminates_iff:
  "(\<exists>r. columns self = Some r) \<longleftrightarrow>
   distinct (map snd (self_columns self)) \<and> (\<forall>item\<in>set (self_columns self). 0 \<le> snd item)"
  unfolding columns_def
  using columns_loop_Some_iff [of "sort_key snd (self_columns self)" 0 "[]"]
  by (simp add: strict_sorted_items sorted_sort_key)

theorem columns_terminates_iff_witness:
  "apply_directives (init :: int xvg) [''@ s0 legend A'', ''@ s0 legend B''] =
     Inr (init\<lparr>self_columns := [(''A'', 1), (''B'', 1)]\<rparr>)
   \<and> columns (init\<lparr>self_columns := [(''A'', 1), (''B'', 1)]\<rparr> :: int xvg) = None
   \<and> columns (init\<lparr>self_columns := [(''A'', 1)]\<rparr> :: int xvg) = Some [[], ''A'']"
proof -
  have run: "apply_directives (init :: int xvg) [''@ s0 legend A'', ''@ s0 legend B''] =
     Inr (init\<lparr>self_columns := [(''A'', 1), (''B'', 1)]\<rparr>)"
    by (simp add: legend_s0_A legend_s0_B init_def)
  have one: "columns (init\<lparr>self_columns := [(''A'', 1)]\<rparr> :: int xvg) = Some [[], ''A'']"
    by (simp add: columns_def columns_loop.simps)
  from columns_terminates_iff [of "init\<lparr>self_columns := [(''A'', 1), (''B'', 1)]\<rparr> :: int xvg"]
    run one
  show ?thesis by simp
qed

text \<open>
  Distinct indices are not enough: \<^verbatim>\<open>@ s-5 legend A\<close> registers \<^verbatim>\<open>A\<close> at \<open>-4\<close>, the only
  index, and the loop never reaches it.
\<close>

theorem columns_negative_index_counterexample:
  "parse_header_line (init :: int xvg) ''@ s-5 legend A'' =
     Inr (init\<lparr>self_columns := [(''A'', - 4)]\<rparr>)
   \<and> distinct (map snd (self_columns (init\<lparr>self_columns := [(''A'', - 4)]\<rparr> :: int xvg)))
   \<and> columns (init\<lparr>self_columns := [(''A'', - 4)]\<rparr> :: int xvg) = None"
  by (simp add: legend_negative_A init_def columns_def columns_loop_stuck)

end
